theory Spec2Isabelle
  imports Main "HOL-Library.Word"
begin

section \<open>Strings, bytes and UTF-8\<close>

text \<open>
  A Python \<^verbatim>\<open>str\<close> is a sequence of Unicode code points: \<^verbatim>\<open>len\<close> and slicing count
  code points, not bytes. A \<^verbatim>\<open>bytes\<close> object is a sequence of octets.
\<close>

type_synonym codepoint = nat
type_synonym pystr = "codepoint list"
type_synonym byte = "8 word"

definition ascii :: "string \<Rightarrow> pystr" where
  "ascii s = map of_char s"

text \<open>
  \<^verbatim>\<open>bytes(s, 'utf-8')\<close>: one to four octets per code point. The strict encoder raises
  \<^verbatim>\<open>UnicodeEncodeError\<close> on a surrogate (U+D800 to U+DFFF); a code point beyond
  U+10FFFF cannot occur in a \<^verbatim>\<open>str\<close>. Both are \<open>None\<close> here.
\<close>

definition utf8_encode_cp :: "codepoint \<Rightarrow> byte list option" where
  "utf8_encode_cp c =
     (if c < 0x80 then Some [of_nat c]
      else if c < 0x800 then Some [of_nat (0xC0 + c div 64), of_nat (0x80 + c mod 64)]
      else if c < 0x10000 then
        (if 0xD800 \<le> c \<and> c \<le> 0xDFFF then None
         else Some [of_nat (0xE0 + c div 4096), of_nat (0x80 + (c div 64) mod 64),
                    of_nat (0x80 + c mod 64)])
      else if c < 0x110000 then
        Some [of_nat (0xF0 + c div 262144), of_nat (0x80 + (c div 4096) mod 64),
              of_nat (0x80 + (c div 64) mod 64), of_nat (0x80 + c mod 64)]
      else None)"

fun utf8_encode :: "pystr \<Rightarrow> byte list option" where
  "utf8_encode [] = Some []"
| "utf8_encode (c # cs) =
     (case utf8_encode_cp c of
        None \<Rightarrow> None
      | Some bs \<Rightarrow> (case utf8_encode cs of None \<Rightarrow> None | Some rest \<Rightarrow> Some (bs @ rest)))"

text \<open>
  \<^verbatim>\<open>data.decode('utf-8')\<close> with the default strict error handler accepts exactly the
  well-formed byte sequences: no overlong forms, no surrogates, nothing beyond U+10FFFF,
  no truncated sequence. \<open>utf8_head\<close> reads the code point at the front of the data
  and says how many continuation bytes it took.
\<close>

definition in_range :: "byte \<Rightarrow> nat \<Rightarrow> nat \<Rightarrow> bool" where
  "in_range b lo hi = (lo \<le> unat b \<and> unat b \<le> hi)"

definition cont_bits :: "byte \<Rightarrow> nat" where
  "cont_bits b = unat b - 0x80"

fun utf8_head :: "byte list \<Rightarrow> (codepoint \<times> nat) option" where
  "utf8_head [] = None"
| "utf8_head (b0 # bs) =
     (let n0 = unat b0 in
      if n0 < 0x80 then Some (n0, 0)
      else if 0xC2 \<le> n0 \<and> n0 \<le> 0xDF then
        (case bs of
           b1 # _ \<Rightarrow>
             if in_range b1 0x80 0xBF
             then Some ((n0 - 0xC0) * 64 + cont_bits b1, 1) else None
         | _ \<Rightarrow> None)
      else if 0xE0 \<le> n0 \<and> n0 \<le> 0xEF then
        (case bs of
           b1 # b2 # _ \<Rightarrow>
             if in_range b1 (if n0 = 0xE0 then 0xA0 else 0x80) (if n0 = 0xED then 0x9F else 0xBF)
                \<and> in_range b2 0x80 0xBF
             then Some ((n0 - 0xE0) * 4096 + cont_bits b1 * 64 + cont_bits b2, 2) else None
         | _ \<Rightarrow> None)
      else if 0xF0 \<le> n0 \<and> n0 \<le> 0xF4 then
        (case bs of
           b1 # b2 # b3 # _ \<Rightarrow>
             if in_range b1 (if n0 = 0xF0 then 0x90 else 0x80) (if n0 = 0xF4 then 0x8F else 0xBF)
                \<and> in_range b2 0x80 0xBF \<and> in_range b3 0x80 0xBF
             then Some ((n0 - 0xF0) * 262144 + cont_bits b1 * 4096 + cont_bits b2 * 64
                        + cont_bits b3, 3)
             else None
         | _ \<Rightarrow> None)
      else None)"

function utf8_decode :: "byte list \<Rightarrow> pystr option" where
  "utf8_decode bs =
     (if bs = [] then Some []
      else (case utf8_head bs of
              None \<Rightarrow> None
            | Some (c, k) \<Rightarrow>
                (case utf8_decode (drop (Suc k) bs) of
                   None \<Rightarrow> None
                 | Some cs \<Rightarrow> Some (c # cs))))"
  by pat_completeness auto
termination
  by (relation "measure length") auto

section \<open>Clip\<close>

text \<open>
  \<^verbatim>\<open>class Clip\<close>: the text (field \<open>clip_text\<close>, for \<^verbatim>\<open>self.text\<close>) and the width of
  its menu label. \<^verbatim>\<open>__eq__\<close> compares a clip with a text: \<^verbatim>\<open>text == self.text\<close>.
\<close>

record clip =
  clip_text :: pystr
  max_width :: int

definition Clip :: "pystr \<Rightarrow> int \<Rightarrow> clip" where
  "Clip t w = \<lparr>clip_text = t, max_width = w\<rparr>"

definition clip_eq :: "clip \<Rightarrow> pystr \<Rightarrow> bool" where
  "clip_eq c t = (t = clip_text c)"

text \<open>\<^verbatim>\<open>get_text\<close>: \<^verbatim>\<open>self.text[:1472]\<close>, the first 1472 code points.\<close>

definition get_text :: "clip \<Rightarrow> pystr" where
  "get_text c = take 1472 (clip_text c)"

text \<open>
  Slices \<^verbatim>\<open>s[:j]\<close> and \<^verbatim>\<open>s[i:]\<close>: a negative index counts from the end and is
  clipped at the start of the sequence.
\<close>

definition slice_to :: "'a list \<Rightarrow> int \<Rightarrow> 'a list" where
  "slice_to xs j = (if j < 0 then take (nat (int (length xs) + j)) xs else take (nat j) xs)"

definition slice_from :: "'a list \<Rightarrow> int \<Rightarrow> 'a list" where
  "slice_from xs i = (if i < 0 then drop (nat (int (length xs) + i)) xs else drop (nat i) xs)"

text \<open>
  \<^verbatim>\<open>str.strip()\<close> without argument removes leading and trailing whitespace, which for
  a \<^verbatim>\<open>str\<close> is every code point that \<^verbatim>\<open>str.isspace\<close> accepts.
\<close>

definition isspace :: "codepoint \<Rightarrow> bool" where
  "isspace c =
     ((0x09 \<le> c \<and> c \<le> 0x0D) \<or> (0x1C \<le> c \<and> c \<le> 0x20) \<or> c = 0x85 \<or> c = 0xA0
      \<or> c = 0x1680 \<or> (0x2000 \<le> c \<and> c \<le> 0x200A) \<or> c = 0x2028 \<or> c = 0x2029
      \<or> c = 0x202F \<or> c = 0x205F \<or> c = 0x3000)"

definition strip :: "pystr \<Rightarrow> pystr" where
  "strip s = rev (dropWhile isspace (rev (dropWhile isspace s)))"

definition replace_newlines :: "pystr \<Rightarrow> pystr" where
  "replace_newlines s = map (\<lambda>c. if c = 0x0A then 0x20 else c) s"

text \<open>
  \<^verbatim>\<open>int(self.max_width/2)\<close>: true division, then truncation towards zero. For a
  width below \<open>2^53\<close> in absolute value the float quotient is exact, which is the range
  this definition covers.
\<close>

definition int_half :: "int \<Rightarrow> int" where
  "int_half w = (if 0 \<le> w then w div 2 else - ((- w) div 2))"

text \<open>
  The separator written in the format string of \<^verbatim>\<open>get_itemlabel\<close>. In the source file
  it is the three code points U+00E2, U+20AC, U+00A6 (the octets of the horizontal
  ellipsis U+2026 read in a one-byte code page).
\<close>

definition ellipsis :: pystr where
  "ellipsis = [0xE2, 0x20AC, 0xA6]"

text \<open>The value of \<^verbatim>\<open>trimmed\<close> in \<^verbatim>\<open>get_itemlabel\<close>: the whitespace-normalized text.\<close>

definition normalized :: "clip \<Rightarrow> pystr" where
  "normalized c = strip (replace_newlines (clip_text c))"

definition get_itemlabel :: "clip \<Rightarrow> pystr" where
  "get_itemlabel c =
     (let trimmed = strip (replace_newlines (clip_text c)) in
      if int (length trimmed) > max_width c then
        (let mw = int_half (max_width c) - 1
         in slice_to trimmed mw @ ellipsis @ slice_from trimmed (- mw))
      else trimmed)"

section \<open>NetClip\<close>

text \<open>
  The state of \<^verbatim>\<open>class NetClip\<close> that the handlers read and write. \<open>autosend\<close> and
  \<open>autoreceive\<close> are the states of the two check menu items; \<open>last_sent\<close> is
  \<^verbatim>\<open>None\<close> until the first send.
\<close>

record netclip =
  clips :: "clip list"
  received_clips :: "clip list"
  clip_max_count :: int
  menu_max_width :: int
  last_sent :: "pystr option"
  autosend :: bool
  autoreceive :: bool

text \<open>\<^verbatim>\<open>__init__\<close>: both histories empty, nothing sent yet.\<close>

definition init :: "int \<Rightarrow> int \<Rightarrow> bool \<Rightarrow> bool \<Rightarrow> netclip" where
  "init count width asend areceive =
     \<lparr>clips = [], received_clips = [], clip_max_count = count, menu_max_width = width,
      last_sent = None, autosend = asend, autoreceive = areceive\<rparr>"

text \<open>
  A handler either returns a value or raises. The state it leaves behind and the calls it
  made to its collaborators (socket, clipboard, notification daemon, menu) are part of
  its result in both cases: an exception does not undo what was done before it.
  The desktop collaborators are recorded as effects; the socket's \<^verbatim>\<open>sendto\<close> can also
  fail, which the caller of the model decides by a flag.
\<close>

datatype error = UnicodeDecodeError | UnicodeEncodeError | OSError | ValueError

datatype 'a result = Returned 'a | Raised error

datatype effect =
    Sendto "byte list"
  | Clipboard_set_text pystr
  | Clipboard_store
  | Notification pystr pystr
  | Fill_menu

fun raised :: "'a result \<Rightarrow> bool" where
  "raised (Raised e) = True"
| "raised (Returned v) = False"

text \<open>
  \<^verbatim>\<open>list.remove(x)\<close> deletes the first element equal to \<open>x\<close> and raises
  \<^verbatim>\<open>ValueError\<close> when there is none. Two clips compare equal through
  \<^verbatim>\<open>Clip.__eq__\<close>, that is when their texts are equal.
\<close>

fun list_remove :: "clip \<Rightarrow> clip list \<Rightarrow> clip list option" where
  "list_remove x [] = None"
| "list_remove x (c # cs) =
     (if clip_eq c (clip_text x) then Some cs
      else (case list_remove x cs of None \<Rightarrow> None | Some cs' \<Rightarrow> Some (c # cs')))"

text \<open>
  The loop \<^verbatim>\<open>for clip in lst: if text == clip: lst.remove(clip)\<close> changes the list it
  iterates over. The iterator keeps an index \<open>i\<close> into the current list: each round reads
  element \<open>i\<close> of the list as it is then, moves on to \<open>i + 1\<close>, and stops when the index
  has reached the current length.
\<close>

function remove_duplicates :: "pystr \<Rightarrow> nat \<Rightarrow> clip list \<Rightarrow> unit result \<times> clip list" where
  "remove_duplicates t i cs =
     (if i < length cs then
        (if clip_eq (cs ! i) t then
           (case list_remove (cs ! i) cs of
              None \<Rightarrow> (Raised ValueError, cs)
            | Some cs' \<Rightarrow> remove_duplicates t (Suc i) cs')
         else remove_duplicates t (Suc i) cs)
      else (Returned (), cs))"
  by pat_completeness auto
termination
proof (relation "measure (\<lambda>(t, i, cs). length cs - i)")
  have shorter: "length cs' < length cs" if "list_remove x cs = Some cs'"
    for x :: clip and cs cs'
    using that by (induction cs arbitrary: cs') (auto split: if_splits option.splits)
  fix t :: pystr and i :: nat and cs cs' :: "clip list"
  assume "i < length cs" and "list_remove (cs ! i) cs = Some cs'"
  then show "((t, Suc i, cs'), (t, i, cs)) \<in> measure (\<lambda>(t, i, cs). length cs - i)"
    using shorter [of "cs ! i" cs cs'] by simp
qed auto

text \<open>
  \<^verbatim>\<open>send_clip\<close>: remember the payload, encode it, hand it to the socket. \<open>sendto_ok\<close>
  says whether \<^verbatim>\<open>sock.sendto\<close> completes (it then returns the number of octets of the
  datagram) or raises \<^verbatim>\<open>OSError\<close>.
\<close>

definition send_clip :: "netclip \<Rightarrow> clip \<Rightarrow> bool \<Rightarrow> nat result \<times> netclip \<times> effect list" where
  "send_clip s c sendto_ok =
     (let s1 = s\<lparr>last_sent := Some (get_text c)\<rparr> in
      case utf8_encode (get_text c) of
        None \<Rightarrow> (Raised UnicodeEncodeError, s1, [])
      | Some payload \<Rightarrow>
          if sendto_ok then (Returned (length payload), s1, [Sendto payload])
          else (Raised OSError, s1, []))"

text \<open>\<^verbatim>\<open>copy_clip\<close>: \<^verbatim>\<open>set_text(clip.get_text(), -1)\<close>, then \<^verbatim>\<open>store()\<close>.\<close>

definition copy_clip :: "netclip \<Rightarrow> clip \<Rightarrow> unit result \<times> netclip \<times> effect list" where
  "copy_clip s c = (Returned (), s, [Clipboard_set_text (get_text c), Clipboard_store])"

text \<open>
  \<^verbatim>\<open>list.pop()\<close> after the insertion: the list is not empty there, so the last element
  is removed.
\<close>

definition cap :: "int \<Rightarrow> clip list \<Rightarrow> clip list" where
  "cap n cs = (if int (length cs) > n then butlast cs else cs)"

text \<open>
  \<^verbatim>\<open>on_clipboard_change\<close>. \<open>wt\<close> is what \<^verbatim>\<open>wait_for_text()\<close> returned: \<^verbatim>\<open>None\<close> when
  the clipboard holds no text.
\<close>

definition on_clipboard_change ::
  "netclip \<Rightarrow> pystr option \<Rightarrow> bool \<Rightarrow> bool result \<times> netclip \<times> effect list" where
  "on_clipboard_change s wt sendto_ok =
     (case wt of
        None \<Rightarrow> (Returned False, s, [])
      | Some t \<Rightarrow>
          if t = [] then (Returned False, s, [])
          else if clips s \<noteq> [] \<and> clip_eq (hd (clips s)) t then (Returned False, s, [])
          else
            (case remove_duplicates t 0 (clips s) of
               (Raised e, cs) \<Rightarrow> (Raised e, s\<lparr>clips := cs\<rparr>, [])
             | (Returned u, cs) \<Rightarrow>
                 (let c = Clip t (menu_max_width s);
                      s1 = s\<lparr>clips := c # cs\<rparr>;
                      (r, s2, fx) =
                        (if autosend s1 then send_clip s1 c sendto_ok
                         else (Returned 0, s1, []))
                  in case r of
                       Raised e \<Rightarrow> (Raised e, s2, fx)
                     | Returned n \<Rightarrow>
                         (Returned True,
                          s2\<lparr>clips := cap (clip_max_count s2) (clips s2)\<rparr>,
                          fx @ [Fill_menu]))))"

text \<open>
  \<^verbatim>\<open>on_clip_received\<close>. \<open>data\<close> and \<open>address\<close> are what \<^verbatim>\<open>recvfrom(4096)\<close> returned:
  the octets of the datagram and the sender's host (\<^verbatim>\<open>address[0]\<close>).
\<close>

definition on_clip_received ::
  "netclip \<Rightarrow> byte list \<Rightarrow> pystr \<Rightarrow> bool result \<times> netclip \<times> effect list" where
  "on_clip_received s data address =
     (case utf8_decode data of
        None \<Rightarrow> (Raised UnicodeDecodeError, s, [])
      | Some t \<Rightarrow>
          if last_sent s = Some t then (Returned True, s, [])
          else if t = [] then (Returned False, s, [])
          else if received_clips s \<noteq> [] \<and> clip_eq (hd (received_clips s)) t
            then (Returned False, s, [])
          else
            (case remove_duplicates t 0 (received_clips s) of
               (Raised e, cs) \<Rightarrow> (Raised e, s\<lparr>received_clips := cs\<rparr>, [])
             | (Returned u, cs) \<Rightarrow>
                 (let c = Clip t (menu_max_width s);
                      s1 = s\<lparr>received_clips := cs\<rparr>;
                      fx =
                        (if autoreceive s1
                         then snd (snd (copy_clip s1 c))
                              @ [Notification (ascii ''Autocopied clip from '' @ address)
                                   (get_itemlabel c)]
                         else [Notification (ascii ''Got clip from '' @ address)
                                 (get_itemlabel c)]);
                      s2 = s1\<lparr>received_clips := c # received_clips s1\<rparr>
                  in (Returned True,
                      s2\<lparr>received_clips := cap (clip_max_count s2) (received_clips s2)\<rparr>,
                      fx @ [Fill_menu]))))"

text \<open>
  The two event sources of the main loop. A handler that raises is reported by the
  main loop and the state stays as the handler left it.
\<close>

datatype event =
    Clipboard_change "pystr option" bool
  | Clip_received "byte list" pystr

fun dispatch :: "netclip \<Rightarrow> event \<Rightarrow> bool result \<times> netclip \<times> effect list" where
  "dispatch s (Clipboard_change wt sendto_ok) = on_clipboard_change s wt sendto_ok"
| "dispatch s (Clip_received data address) = on_clip_received s data address"

fun run :: "netclip \<Rightarrow> event list \<Rightarrow> netclip" where
  "run s [] = s"
| "run s (e # es) = run (fst (snd (dispatch s e))) es"

text \<open>No send attempted during the run raises.\<close>

fun sends_complete :: "netclip \<Rightarrow> event list \<Rightarrow> bool" where
  "sends_complete s [] = True"
| "sends_complete s (Clipboard_change wt sendto_ok # es) =
     (\<not> raised (fst (on_clipboard_change s wt sendto_ok))
      \<and> sends_complete (fst (snd (on_clipboard_change s wt sendto_ok))) es)"
| "sends_complete s (Clip_received data address # es) =
     sends_complete (fst (snd (on_clip_received s data address))) es"

text \<open>
  What the two histories are meant to satisfy: neither is longer than the configured
  count, and neither holds two clips with the same text.
\<close>

definition invariant :: "netclip \<Rightarrow> bool" where
  "invariant s =
     (int (length (clips s)) \<le> clip_max_count s
      \<and> int (length (received_clips s)) \<le> clip_max_count s
      \<and> distinct (map clip_text (clips s))
      \<and> distinct (map clip_text (received_clips s)))"

section \<open>The loop that removes duplicates\<close>

text \<open>
  The recursion equations of the two loops are applied by hand (\<open>subst\<close>), one round at
  a time.
\<close>

declare remove_duplicates.simps [simp del]

declare utf8_decode.simps [simp del]

lemma list_remove_present:
  "clip_text x \<in> clip_text ` set cs \<Longrightarrow> \<exists>cs'. list_remove x cs = Some cs'"
  by (induction cs) (auto simp: clip_eq_def)

lemma list_remove_filter:
  "distinct (map clip_text cs) \<Longrightarrow> clip_text x \<in> clip_text ` set cs \<Longrightarrow>
   list_remove x cs = Some (filter (\<lambda>c. clip_text c \<noteq> clip_text x) cs)"
proof (induction cs)
  case Nil
  then show ?case by simp
next
  case (Cons c cs)
  show ?case
  proof (cases "clip_text c = clip_text x")
    case True
    from Cons.prems(1) have "clip_text c \<notin> clip_text ` set cs" by simp
    with True have "clip_text x \<notin> clip_text ` set cs" by simp
    then have "\<forall>d \<in> set cs. clip_text d \<noteq> clip_text x" by (metis imageI)
    then have "filter (\<lambda>c. clip_text c \<noteq> clip_text x) cs = cs" by simp
    with True show ?thesis by (simp add: clip_eq_def)
  next
    case False
    with Cons.prems have "clip_text x \<in> clip_text ` set cs" and "distinct (map clip_text cs)"
      by auto
    then have "list_remove x cs = Some (filter (\<lambda>c. clip_text c \<noteq> clip_text x) cs)"
      by (rule Cons.IH [rotated])
    with False show ?thesis by (simp add: clip_eq_def)
  qed
qed

text \<open>\<^verbatim>\<open>list.remove\<close> is only called with an element of the list: it never raises.\<close>

lemma remove_duplicates_returns: "fst (remove_duplicates t i cs) = Returned ()"
proof (induction t i cs rule: remove_duplicates.induct)
  case (1 t i cs)
  show ?case
  proof (cases "i < length cs")
    case False
    then show ?thesis by (subst remove_duplicates.simps) simp
  next
    case lt: True
    show ?thesis
    proof (cases "clip_eq (cs ! i) t")
      case False
      with lt "1.IH"(2) show ?thesis by (subst remove_duplicates.simps) simp
    next
      case True
      from lt have "cs ! i \<in> set cs" by simp
      then have "clip_text (cs ! i) \<in> clip_text ` set cs" by (rule imageI)
      then obtain cs' where r: "list_remove (cs ! i) cs = Some cs'"
        using list_remove_present by blast
      with lt True "1.IH"(1) show ?thesis by (subst remove_duplicates.simps) simp
    qed
  qed
qed

lemma remove_duplicates_absent:
  "t \<notin> clip_text ` set (drop i cs) \<Longrightarrow> remove_duplicates t i cs = (Returned (), cs)"
proof (induction t i cs rule: remove_duplicates.induct)
  case (1 t i cs)
  show ?case
  proof (cases "i < length cs")
    case False
    then show ?thesis by (subst remove_duplicates.simps) simp
  next
    case lt: True
    then have d: "drop i cs = cs ! i # drop (Suc i) cs"
      by (simp add: Cons_nth_drop_Suc)
    with "1.prems" have ne: "\<not> clip_eq (cs ! i) t" and rest: "t \<notin> clip_text ` set (drop (Suc i) cs)"
      by (auto simp: clip_eq_def)
    from "1.IH"(2) [OF lt ne rest] lt ne show ?thesis
      by (subst remove_duplicates.simps) simp
  qed
qed

lemma remove_duplicates_distinct_from:
  "distinct (map clip_text cs) \<Longrightarrow> i \<le> j \<Longrightarrow> j < length cs \<Longrightarrow> clip_text (cs ! j) = t \<Longrightarrow>
   remove_duplicates t i cs = (Returned (), filter (\<lambda>c. clip_text c \<noteq> t) cs)"
proof (induction "j - i" arbitrary: i)
  case 0
  then have ij: "i = j" by simp
  let ?f = "filter (\<lambda>c. clip_text c \<noteq> t) cs"
  from 0 have "cs ! j \<in> set cs" by simp
  then have "clip_text (cs ! j) \<in> clip_text ` set cs" by (rule imageI)
  with 0 have r: "list_remove (cs ! j) cs = Some ?f"
    using list_remove_filter [of cs "cs ! j"] by simp
  have "t \<notin> clip_text ` set ?f" by auto
  moreover have "set (drop (Suc j) ?f) \<subseteq> set ?f" by (rule set_drop_subset)
  ultimately have "t \<notin> clip_text ` set (drop (Suc j) ?f)" by blast
  then have "remove_duplicates t (Suc j) ?f = (Returned (), ?f)"
    by (rule remove_duplicates_absent)
  with r 0 ij show ?case by (subst remove_duplicates.simps) (simp add: clip_eq_def)
next
  case (Suc n)
  then have lt: "i < j" and li: "i < length cs" by simp_all
  from Suc.prems(1) have "distinct (map clip_text cs)" .
  then have "map clip_text cs ! i \<noteq> map clip_text cs ! j"
    using lt li Suc.prems(3) by (simp add: distinct_conv_nth)
  then have "clip_text (cs ! i) \<noteq> clip_text (cs ! j)"
    using li Suc.prems(3) by simp
  with Suc.prems(4) have ne: "\<not> clip_eq (cs ! i) t" by (simp add: clip_eq_def)
  from Suc.hyps(2) have "n = j - Suc i" by simp
  moreover from lt have "Suc i \<le> j" by simp
  ultimately have "remove_duplicates t (Suc i) cs = (Returned (), filter (\<lambda>c. clip_text c \<noteq> t) cs)"
    using Suc.hyps(1) [of "Suc i"] Suc.prems by blast
  with li ne show ?case by (subst remove_duplicates.simps) simp
qed

text \<open>
  On a history without repeated texts the loop removes the one clip with the text, if
  there is one: the element that slides into the freed position is skipped by the
  iterator, and it cannot be a second match.
\<close>

lemma remove_duplicates_distinct:
  assumes d: "distinct (map clip_text cs)"
  shows "remove_duplicates t 0 cs = (Returned (), filter (\<lambda>c. clip_text c \<noteq> t) cs)"
proof (cases "t \<in> clip_text ` set cs")
  case False
  then have "\<forall>c \<in> set cs. clip_text c \<noteq> t" by (metis imageI)
  then have "filter (\<lambda>c. clip_text c \<noteq> t) cs = cs" by simp
  with False show ?thesis by (simp add: remove_duplicates_absent)
next
  case True
  then obtain c where "c \<in> set cs" "clip_text c = t" by blast
  then obtain j where "j < length cs" "clip_text (cs ! j) = t"
    by (metis in_set_conv_nth)
  with d show ?thesis by (simp add: remove_duplicates_distinct_from [of cs 0 j])
qed

text \<open>
  Without that the skipped element can be a match that stays: of two clips with the
  text at the front, the loop removes one.
\<close>

lemma remove_duplicates_skips_next:
  "remove_duplicates [0x61] 0 [Clip [0x61] 1, Clip [0x61] 2, Clip [0x62] 3]
   = (Returned (), [Clip [0x61] 2, Clip [0x62] 3])"
  by (simp add: remove_duplicates.simps [of _ 0] remove_duplicates.simps [of _ "Suc 0"]
      remove_duplicates.simps [of _ "Suc (Suc 0)"] clip_eq_def Clip_def)


lemma distinct_record:
  "distinct (map clip_text cs) \<Longrightarrow>
   distinct (map clip_text (Clip t w # filter (\<lambda>c. clip_text c \<noteq> t) cs))"
  by (auto simp: Clip_def distinct_map_filter)

section \<open>UTF-8 on simple texts\<close>

lemma utf8_encode_replicate:
  "utf8_encode_cp c = Some bs \<Longrightarrow> utf8_encode (replicate n c) = Some (concat (replicate n bs))"
  by (induction n) simp_all

lemma length_concat_replicate: "length (concat (replicate n bs)) = n * length bs"
  by (induction n) simp_all

lemma utf8_encode_ascii:
  "\<forall>c \<in> set t. c < 0x80 \<Longrightarrow> utf8_encode t = Some (map of_nat t)"
  by (induction t) (simp_all add: utf8_encode_cp_def)

lemma utf8_decode_ascii:
  "\<forall>b \<in> set bs. unat b < 0x80 \<Longrightarrow> utf8_decode bs = Some (map unat bs)"
proof (induction bs)
  case Nil
  show ?case by (subst utf8_decode.simps) simp
next
  case (Cons b bs)
  then have "utf8_decode bs = Some (map unat bs)" and "unat b < 0x80" by simp_all
  then show ?case by (subst utf8_decode.simps) simp
qed

lemma utf8_decode_letter: "b < 0x80 \<Longrightarrow> utf8_decode [b] = Some [unat b]"
  using utf8_decode_ascii [of "[b]"] by (simp add: word_less_nat_alt)

lemma utf8_decode_FF: "utf8_decode [0xFF] = None"
  by (subst utf8_decode.simps) (simp add: in_range_def)

section \<open>What the handlers leave behind\<close>

lemma cap_full: "cs \<noteq> [] \<Longrightarrow> int (length cs) = n \<Longrightarrow> cap n (c # cs) = c # butlast cs"
  by (simp add: cap_def)

lemma cap_fits: "int (length cs) \<le> n \<Longrightarrow> cap n cs = cs"
  by (simp add: cap_def)

lemma length_cap: "0 \<le> n \<Longrightarrow> int (length cs) \<le> n + 1 \<Longrightarrow> int (length (cap n cs)) \<le> n"
  by (auto simp: cap_def)

lemma distinct_cap: "distinct (map clip_text cs) \<Longrightarrow> distinct (map clip_text (cap n cs))"
  by (simp add: cap_def map_butlast distinct_butlast)



lemma on_clipboard_change_frame:
  "received_clips (fst (snd (on_clipboard_change s wt sendto_ok))) = received_clips s
   \<and> clip_max_count (fst (snd (on_clipboard_change s wt sendto_ok))) = clip_max_count s
   \<and> menu_max_width (fst (snd (on_clipboard_change s wt sendto_ok))) = menu_max_width s
   \<and> autosend (fst (snd (on_clipboard_change s wt sendto_ok))) = autosend s
   \<and> autoreceive (fst (snd (on_clipboard_change s wt sendto_ok))) = autoreceive s"
  by (auto simp: on_clipboard_change_def send_clip_def Let_def
      split: option.splits prod.splits result.splits)

lemma on_clip_received_frame:
  "clips (fst (snd (on_clip_received s data address))) = clips s
   \<and> clip_max_count (fst (snd (on_clip_received s data address))) = clip_max_count s
   \<and> menu_max_width (fst (snd (on_clip_received s data address))) = menu_max_width s
   \<and> last_sent (fst (snd (on_clip_received s data address))) = last_sent s
   \<and> autosend (fst (snd (on_clip_received s data address))) = autosend s
   \<and> autoreceive (fst (snd (on_clip_received s data address))) = autoreceive s"
  by (auto simp: on_clip_received_def Let_def
      split: option.splits prod.splits result.splits)

lemma on_clipboard_change_skips:
  "wt = None \<or> wt = Some [] \<or> (\<exists>t. wt = Some t \<and> clips s \<noteq> [] \<and> clip_text (hd (clips s)) = t)
   \<Longrightarrow> on_clipboard_change s wt sendto_ok = (Returned False, s, [])"
  by (auto simp: on_clipboard_change_def clip_eq_def)

lemma on_clip_received_skips:
  "utf8_decode data = Some t \<Longrightarrow>
   last_sent s = Some t \<or> t = [] \<or> (received_clips s \<noteq> [] \<and> clip_text (hd (received_clips s)) = t)
   \<Longrightarrow> fst (snd (on_clip_received s data address)) = s"
  by (auto simp: on_clip_received_def clip_eq_def)

text \<open>
  A clipboard change that is neither empty nor a repeat of the head puts the new clip in
  front of what the loop left. The cap comes after the send: when the send raises, the
  handler is left before the cap.
\<close>

lemma clips_after_change:
  assumes "t \<noteq> []" and "\<not> (clips s \<noteq> [] \<and> clip_text (hd (clips s)) = t)"
  shows "clips (fst (snd (on_clipboard_change s (Some t) sendto_ok)))
         = (if raised (fst (on_clipboard_change s (Some t) sendto_ok))
            then Clip t (menu_max_width s) # snd (remove_duplicates t 0 (clips s))
            else cap (clip_max_count s)
                   (Clip t (menu_max_width s) # snd (remove_duplicates t 0 (clips s))))"
proof -
  obtain cs where r: "remove_duplicates t 0 (clips s) = (Returned (), cs)"
    using remove_duplicates_returns [of t 0 "clips s"]
    by (cases "remove_duplicates t 0 (clips s)") simp
  with assms show ?thesis
    by (auto simp: on_clipboard_change_def send_clip_def clip_eq_def Let_def
        split: option.splits)
qed

lemma on_clipboard_change_raised_iff:
  "raised (fst (on_clipboard_change s wt sendto_ok)) =
     (\<exists>t. wt = Some t \<and> t \<noteq> [] \<and> \<not> (clips s \<noteq> [] \<and> clip_text (hd (clips s)) = t)
          \<and> autosend s \<and> (utf8_encode (take 1472 t) = None \<or> \<not> sendto_ok))"
proof (cases "wt = None \<or> wt = Some [] \<or>
    (\<exists>t. wt = Some t \<and> clips s \<noteq> [] \<and> clip_text (hd (clips s)) = t)")
  case True
  then have "on_clipboard_change s wt sendto_ok = (Returned False, s, [])"
    by (rule on_clipboard_change_skips)
  with True show ?thesis by auto
next
  case False
  then obtain t where wt: "wt = Some t" and t: "t \<noteq> []"
    and h: "\<not> (clips s \<noteq> [] \<and> clip_text (hd (clips s)) = t)"
    by (cases wt) auto
  obtain cs where r: "remove_duplicates t 0 (clips s) = (Returned (), cs)"
    using remove_duplicates_returns [of t 0 "clips s"]
    by (cases "remove_duplicates t 0 (clips s)") simp
  with wt t h show ?thesis
    by (auto simp: on_clipboard_change_def send_clip_def clip_eq_def Let_def get_text_def Clip_def
        split: option.splits)
qed

lemma received_after_receive:
  assumes "utf8_decode data = Some t" and "last_sent s \<noteq> Some t" and "t \<noteq> []"
    and "\<not> (received_clips s \<noteq> [] \<and> clip_text (hd (received_clips s)) = t)"
  shows "on_clip_received s data address
         = (Returned True,
            s\<lparr>received_clips := cap (clip_max_count s)
                 (Clip t (menu_max_width s) # snd (remove_duplicates t 0 (received_clips s)))\<rparr>,
            (if autoreceive s
             then [Clipboard_set_text (get_text (Clip t (menu_max_width s))), Clipboard_store,
                   Notification (ascii ''Autocopied clip from '' @ address)
                     (get_itemlabel (Clip t (menu_max_width s)))]
             else [Notification (ascii ''Got clip from '' @ address)
                     (get_itemlabel (Clip t (menu_max_width s)))]) @ [Fill_menu])"
proof -
  obtain cs where r: "remove_duplicates t 0 (received_clips s) = (Returned (), cs)"
    using remove_duplicates_returns [of t 0 "received_clips s"]
    by (cases "remove_duplicates t 0 (received_clips s)") simp
  with assms show ?thesis
    by (auto simp: on_clip_received_def copy_clip_def clip_eq_def Let_def)
qed

text \<open>
  The whole result of a clipboard change that records a text, on a history without
  repeated texts.
\<close>

lemma on_clipboard_change_record:
  assumes "t \<noteq> []" and "\<not> (clips s \<noteq> [] \<and> clip_text (hd (clips s)) = t)"
    and "distinct (map clip_text (clips s))"
  shows "on_clipboard_change s (Some t) sendto_ok =
     (if autosend s then
        (case utf8_encode (take 1472 t) of
           None \<Rightarrow>
             (Raised UnicodeEncodeError,
              s\<lparr>clips := Clip t (menu_max_width s) # filter (\<lambda>c. clip_text c \<noteq> t) (clips s),
                last_sent := Some (take 1472 t)\<rparr>, [])
         | Some payload \<Rightarrow>
             if sendto_ok then
               (Returned True,
                s\<lparr>clips := cap (clip_max_count s)
                     (Clip t (menu_max_width s) # filter (\<lambda>c. clip_text c \<noteq> t) (clips s)),
                  last_sent := Some (take 1472 t)\<rparr>,
                [Sendto payload, Fill_menu])
             else
               (Raised OSError,
                s\<lparr>clips := Clip t (menu_max_width s) # filter (\<lambda>c. clip_text c \<noteq> t) (clips s),
                  last_sent := Some (take 1472 t)\<rparr>, []))
      else
        (Returned True,
         s\<lparr>clips := cap (clip_max_count s)
              (Clip t (menu_max_width s) # filter (\<lambda>c. clip_text c \<noteq> t) (clips s))\<rparr>,
         [Fill_menu]))"
  using assms
  by (auto simp: on_clipboard_change_def remove_duplicates_distinct send_clip_def clip_eq_def
      Let_def get_text_def Clip_def split: option.splits)

section \<open>The wire payload\<close>

text \<open>
  For a text of ASCII characters the datagram that \<^verbatim>\<open>send_clip\<close> builds holds one octet
  per character of the first 1472, and truncating a second time changes nothing.
\<close>

lemma get_text_ascii_payload:
  assumes "\<forall>x \<in> set (clip_text c). x < 0x80"
  shows "utf8_encode (get_text c) = Some (map of_nat (take 1472 (clip_text c)))"
proof -
  from assms have "\<forall>x \<in> set (take 1472 (clip_text c)). x < 0x80"
    by (meson in_set_takeD)
  then show ?thesis unfolding get_text_def by (rule utf8_encode_ascii)
qed

lemma get_text_ascii_2000:
  "map_option length (utf8_encode (get_text (Clip (replicate 2000 0x61) 30))) = Some 1472"
  using get_text_ascii_payload [of "Clip (replicate 2000 0x61) 30"]
  by (simp add: Clip_def)

lemma get_text_idempotent: "get_text (c\<lparr>clip_text := get_text c\<rparr>) = get_text c"
  by (simp add: get_text_def)

text \<open>
  C1. The claim: the wire payload is the text cut to at most 1472 bytes. \<^verbatim>\<open>get_text\<close>
  cuts to 1472 code points, and \<^verbatim>\<open>send_clip\<close> encodes what is left: a clip of 1472
  times the letter U+00E9, two octets each in UTF-8, is sent as a datagram of 2944 octets.
\<close>

theorem get_text_multibyte_payload:
  "map_option length (utf8_encode (get_text (Clip (replicate 1472 0xE9) 30))) = Some 2944"
proof -
  have "utf8_encode_cp 0xE9 = Some [0xC3, 0xA9]"
    by (simp add: utf8_encode_cp_def)
  then have "utf8_encode (replicate 1472 0xE9) = Some (concat (replicate 1472 [0xC3, 0xA9]))"
    by (rule utf8_encode_replicate)
  then show ?thesis
    by (simp add: get_text_def Clip_def length_concat_replicate)
qed

section \<open>A datagram that is not UTF-8\<close>

text \<open>
  C2, as amended. When the received octets are not well-formed UTF-8, the handler raises
  \<^verbatim>\<open>UnicodeDecodeError\<close> to its caller. It has not touched the state by then: both
  histories and \<open>last_sent\<close> are as before, and no collaborator was called.
\<close>

theorem on_clip_received_decode_error:
  "utf8_decode data = None \<Longrightarrow>
   on_clip_received s data address = (Raised UnicodeDecodeError, s, [])"
  by (simp add: on_clip_received_def)

theorem on_clip_received_decode_error_witness:
  "utf8_decode [0xFF] = None \<and>
   on_clip_received (init 15 30 False False) [0xFF] (ascii ''10.0.0.7'')
     = (Raised UnicodeDecodeError, init 15 30 False False, [])"
  using on_clip_received_decode_error [of "[0xFF]" "init 15 30 False False" "ascii ''10.0.0.7''"]
  by (simp add: utf8_decode_FF)

text \<open>
  C2 as stated says that the datagram is dropped and the receive handler carries on.
  On the single octet \<open>0xFF\<close> the handler does not return: it raises.
\<close>

theorem invalid_utf8_raises:
  "utf8_decode [0xFF] = None \<and>
   raised (fst (on_clip_received (init 15 30 False False) [0xFF] (ascii ''10.0.0.7'')))"
  by (simp add: utf8_decode_FF on_clip_received_def)

section \<open>Copying a clip\<close>

text \<open>
  C3, as amended. \<^verbatim>\<open>copy_clip\<close> hands the clipboard the first 1472 code points of the
  clip's text, and then stores the clipboard. That is the whole text exactly when the text
  has at most 1472 code points.
\<close>

theorem copy_clip_truncated:
  "copy_clip s c = (Returned (), s, [Clipboard_set_text (take 1472 (clip_text c)), Clipboard_store])
   \<and> ((take 1472 (clip_text c) = clip_text c) = (length (clip_text c) \<le> 1472))"
  by (auto simp: copy_clip_def get_text_def)

text \<open>
  C3 as stated says that the clipboard gets the clip's full text. For a clip of 1473
  letters it gets something else.
\<close>

theorem copy_clip_long_text:
  "snd (snd (copy_clip (init 15 30 False True) (Clip (replicate 1473 0x61) 30)))
     \<noteq> [Clipboard_set_text (clip_text (Clip (replicate 1473 0x61) 30)), Clipboard_store]"
  by (simp add: copy_clip_def get_text_def Clip_def)

section \<open>Length and distinctness of the histories\<close>

text \<open>
  Each handler keeps the texts of its history distinct, whether it returns or raises.
\<close>

lemma on_clipboard_change_distinct:
  assumes "distinct (map clip_text (clips s))"
  shows "distinct (map clip_text (clips (fst (snd (on_clipboard_change s wt sendto_ok)))))"
proof (cases "wt = None \<or> wt = Some [] \<or>
    (\<exists>t. wt = Some t \<and> clips s \<noteq> [] \<and> clip_text (hd (clips s)) = t)")
  case True
  then show ?thesis using assms by (simp add: on_clipboard_change_skips)
next
  case False
  then obtain t where wt: "wt = Some t" and t: "t \<noteq> []"
    and h: "\<not> (clips s \<noteq> [] \<and> clip_text (hd (clips s)) = t)"
    by (cases wt) auto
  from assms have d: "distinct (map clip_text
      (Clip t (menu_max_width s) # filter (\<lambda>c. clip_text c \<noteq> t) (clips s)))"
    by (rule distinct_record)
  then have "distinct (map clip_text (cap (clip_max_count s)
      (Clip t (menu_max_width s) # filter (\<lambda>c. clip_text c \<noteq> t) (clips s))))"
    by (rule distinct_cap)
  with d show ?thesis
    unfolding wt clips_after_change [OF t h] remove_duplicates_distinct [OF assms]
    by simp
qed

lemma on_clip_received_distinct:
  assumes "distinct (map clip_text (received_clips s))"
  shows "distinct (map clip_text (received_clips (fst (snd (on_clip_received s data address)))))"
proof (cases "utf8_decode data")
  case None
  with assms show ?thesis by (simp add: on_clip_received_def)
next
  case (Some t)
  show ?thesis
  proof (cases "last_sent s = Some t \<or> t = [] \<or>
      (received_clips s \<noteq> [] \<and> clip_text (hd (received_clips s)) = t)")
    case True
    with Some assms show ?thesis by (simp add: on_clip_received_skips [of data t])
  next
    case False
    then have a: "last_sent s \<noteq> Some t" and b: "t \<noteq> []"
      and c: "\<not> (received_clips s \<noteq> [] \<and> clip_text (hd (received_clips s)) = t)"
      by auto
    let ?new = "Clip t (menu_max_width s) # filter (\<lambda>c. clip_text c \<noteq> t) (received_clips s)"
    from assms have "distinct (map clip_text ?new)" by (rule distinct_record)
    then have "distinct (map clip_text (cap (clip_max_count s) ?new))" by (rule distinct_cap)
    then show ?thesis
      unfolding received_after_receive [OF Some a b c] remove_duplicates_distinct [OF assms]
      by simp
  qed
qed

lemma run_distinct:
  "distinct (map clip_text (clips s)) \<Longrightarrow> distinct (map clip_text (received_clips s)) \<Longrightarrow>
   distinct (map clip_text (clips (run s es)))
   \<and> distinct (map clip_text (received_clips (run s es)))"
proof (induction es arbitrary: s)
  case Nil
  then show ?case by simp
next
  case (Cons e es)
  show ?case
  proof (cases e)
    case (Clipboard_change wt ok)
    let ?s = "fst (snd (on_clipboard_change s wt ok))"
    from Cons.prems have "distinct (map clip_text (clips ?s))"
      and "distinct (map clip_text (received_clips ?s))"
      using on_clipboard_change_distinct [of s wt ok] on_clipboard_change_frame [of s wt ok]
      by simp_all
    then have "distinct (map clip_text (clips (run ?s es)))
        \<and> distinct (map clip_text (received_clips (run ?s es)))"
      by (rule Cons.IH)
    with Clipboard_change show ?thesis by simp
  next
    case (Clip_received data address)
    let ?s = "fst (snd (on_clip_received s data address))"
    from Cons.prems have "distinct (map clip_text (clips ?s))"
      and "distinct (map clip_text (received_clips ?s))"
      using on_clip_received_distinct [of s data address] on_clip_received_frame [of s data address]
      by simp_all
    then have "distinct (map clip_text (clips (run ?s es)))
        \<and> distinct (map clip_text (received_clips (run ?s es)))"
      by (rule Cons.IH)
    with Clip_received show ?thesis by simp
  qed
qed

text \<open>
  Each handler that returns keeps its history within the configured count, when that
  count is not negative.
\<close>

lemma on_clipboard_change_bounded:
  assumes "distinct (map clip_text (clips s))" and "0 \<le> clip_max_count s"
    and "int (length (clips s)) \<le> clip_max_count s"
    and "\<not> raised (fst (on_clipboard_change s wt sendto_ok))"
  shows "int (length (clips (fst (snd (on_clipboard_change s wt sendto_ok))))) \<le> clip_max_count s"
proof (cases "wt = None \<or> wt = Some [] \<or>
    (\<exists>t. wt = Some t \<and> clips s \<noteq> [] \<and> clip_text (hd (clips s)) = t)")
  case True
  then show ?thesis using assms(3) by (simp add: on_clipboard_change_skips)
next
  case False
  then obtain t where wt: "wt = Some t" and t: "t \<noteq> []"
    and h: "\<not> (clips s \<noteq> [] \<and> clip_text (hd (clips s)) = t)"
    by (cases wt) auto
  have "int (length (filter (\<lambda>c. clip_text c \<noteq> t) (clips s))) \<le> int (length (clips s))"
    by simp
  moreover have "int (length (Clip t (menu_max_width s)
      # filter (\<lambda>c. clip_text c \<noteq> t) (clips s)))
      = int (length (filter (\<lambda>c. clip_text c \<noteq> t) (clips s))) + 1"
    by simp
  ultimately have "int (length (Clip t (menu_max_width s)
      # filter (\<lambda>c. clip_text c \<noteq> t) (clips s))) \<le> clip_max_count s + 1"
    using assms(3) by linarith
  with assms(2) have "int (length (cap (clip_max_count s) (Clip t (menu_max_width s)
      # filter (\<lambda>c. clip_text c \<noteq> t) (clips s)))) \<le> clip_max_count s"
    by (rule length_cap)
  then show ?thesis
    using assms(4)
    unfolding wt clips_after_change [OF t h] remove_duplicates_distinct [OF assms(1)]
    by simp
qed

lemma on_clip_received_invariant:
  assumes "distinct (map clip_text (received_clips s))" and "0 \<le> clip_max_count s"
    and "int (length (received_clips s)) \<le> clip_max_count s"
  shows "distinct (map clip_text (received_clips (fst (snd (on_clip_received s data address)))))
    \<and> int (length (received_clips (fst (snd (on_clip_received s data address)))))
        \<le> clip_max_count s"
proof (cases "utf8_decode data")
  case None
  with assms show ?thesis by (simp add: on_clip_received_def)
next
  case (Some t)
  show ?thesis
  proof (cases "last_sent s = Some t \<or> t = [] \<or>
      (received_clips s \<noteq> [] \<and> clip_text (hd (received_clips s)) = t)")
    case True
    with Some assms show ?thesis by (simp add: on_clip_received_skips [of data t])
  next
    case False
    then have a: "last_sent s \<noteq> Some t" and b: "t \<noteq> []"
      and c: "\<not> (received_clips s \<noteq> [] \<and> clip_text (hd (received_clips s)) = t)"
      by auto
    let ?new = "Clip t (menu_max_width s) # filter (\<lambda>c. clip_text c \<noteq> t) (received_clips s)"
    from assms(1) have "distinct (map clip_text ?new)" by (rule distinct_record)
    then have d: "distinct (map clip_text (cap (clip_max_count s) ?new))" by (rule distinct_cap)
    have "int (length (filter (\<lambda>c. clip_text c \<noteq> t) (received_clips s)))
        \<le> int (length (received_clips s))"
      by simp
    moreover have "int (length ?new)
        = int (length (filter (\<lambda>c. clip_text c \<noteq> t) (received_clips s))) + 1"
      by simp
    ultimately have "int (length ?new) \<le> clip_max_count s + 1"
      using assms(3) by linarith
    with assms(2) have l: "int (length (cap (clip_max_count s) ?new)) \<le> clip_max_count s"
      by (rule length_cap)
    from d l show ?thesis
      unfolding received_after_receive [OF Some a b c] remove_duplicates_distinct [OF assms(1)]
      by simp
  qed
qed

lemma run_invariant:
  "invariant s \<Longrightarrow> 0 \<le> clip_max_count s \<Longrightarrow> sends_complete s es \<Longrightarrow>
   invariant (run s es) \<and> clip_max_count (run s es) = clip_max_count s"
proof (induction es arbitrary: s)
  case Nil
  then show ?case by simp
next
  case (Cons e es)
  show ?case
  proof (cases e)
    case (Clipboard_change wt ok)
    let ?s = "fst (snd (on_clipboard_change s wt ok))"
    from Cons.prems Clipboard_change have nr: "\<not> raised (fst (on_clipboard_change s wt ok))"
      and sc: "sends_complete ?s es" by simp_all
    from Cons.prems(1,2) nr have "invariant ?s"
      unfolding invariant_def
      using on_clipboard_change_distinct [of s wt ok] on_clipboard_change_bounded [of s wt ok]
        on_clipboard_change_frame [of s wt ok]
      by simp
    moreover from Cons.prems(2) have "0 \<le> clip_max_count ?s"
      using on_clipboard_change_frame [of s wt ok] by simp
    ultimately have "invariant (run ?s es) \<and> clip_max_count (run ?s es) = clip_max_count ?s"
      using sc by (rule Cons.IH)
    with Clipboard_change show ?thesis
      using on_clipboard_change_frame [of s wt ok] by simp
  next
    case (Clip_received data address)
    let ?s = "fst (snd (on_clip_received s data address))"
    from Cons.prems Clip_received have sc: "sends_complete ?s es" by simp
    from Cons.prems(1,2) have "invariant ?s"
      unfolding invariant_def
      using on_clip_received_invariant [of s data address]
        on_clip_received_frame [of s data address]
      by simp
    moreover from Cons.prems(2) have "0 \<le> clip_max_count ?s"
      using on_clip_received_frame [of s data address] by simp
    ultimately have "invariant (run ?s es) \<and> clip_max_count (run ?s es) = clip_max_count ?s"
      using sc by (rule Cons.IH)
    with Clip_received show ?thesis
      using on_clip_received_frame [of s data address] by simp
  qed
qed

lemma run_from_init:
  assumes "0 \<le> n" and "sends_complete (init n w a r) es"
  shows "invariant (run (init n w a r) es)"
proof -
  from assms(1) have "invariant (init n w a r)" and "0 \<le> clip_max_count (init n w a r)"
    by (simp_all add: invariant_def init_def)
  then show ?thesis using assms(2) run_invariant by blast
qed

text \<open>
  C4. The claim: after any sequence of events both histories hold at most the configured
  count of clips. With a count of 1 and automatic sending switched on, the text \<open>a\<close> is
  copied and sent, then the text \<open>b\<close> is copied and its \<^verbatim>\<open>sendto\<close> raises: the handler is
  left after the insertion and before the cap, and the history holds two clips.
\<close>

theorem capacity_exceeded_after_failed_send:
  "clips (run (init 1 30 True False)
       [Clipboard_change (Some [0x61]) True, Clipboard_change (Some [0x62]) False])
   = [Clip [0x62] 30, Clip [0x61] 30]"
proof -
  let ?s0 = "init 1 30 True False"
  let ?s1 = "fst (snd (on_clipboard_change ?s0 (Some [0x61]) True))"
  have e: "utf8_encode (take 1472 [0x61]) = Some [0x61]"
    by (simp add: utf8_encode_cp_def)
  have nr: "\<not> raised (fst (on_clipboard_change ?s0 (Some [0x61]) True))"
    unfolding on_clipboard_change_raised_iff by (simp add: utf8_encode_cp_def init_def)
  have c1: "clips ?s1 = [Clip [0x61] 30]"
    using clips_after_change [of "[0x61]" ?s0 True] nr
    by (simp add: init_def remove_duplicates_absent cap_def)
  have f1: "clip_max_count ?s1 = 1" "autosend ?s1" "menu_max_width ?s1 = 30"
    using on_clipboard_change_frame [of ?s0 "Some [0x61]" True] by (simp_all add: init_def)
  have r: "raised (fst (on_clipboard_change ?s1 (Some [0x62]) False))"
    unfolding on_clipboard_change_raised_iff by (simp add: c1 f1 Clip_def)
  have "clips (fst (snd (on_clipboard_change ?s1 (Some [0x62]) False)))
        = [Clip [0x62] 30, Clip [0x61] 30]"
    using clips_after_change [of "[0x62]" ?s1 False] r
    by (simp add: c1 f1 Clip_def remove_duplicates_absent)
  then show ?thesis by simp
qed

section \<open>The echo of the last send\<close>




section \<open>Recording a text\<close>

text \<open>
  The history \<open>cs\<close> is full: it is not empty and as long as the configured count. The
  text \<open>t\<close> is not empty and not the text of any entry. When the handler records \<open>t\<close> and
  returns, the history is the new clip followed by \<open>cs\<close> without its last entry. For
  \<^verbatim>\<open>on_clip_received\<close> the datagram decodes to \<open>t\<close>, which is not the payload sent last.
\<close>

lemma record_into_full_store:
  assumes "t \<noteq> []" and "t \<notin> clip_text ` set cs" and "cs \<noteq> []"
    and "int (length cs) = clip_max_count s"
  shows "(clips s = cs \<and> \<not> raised (fst (on_clipboard_change s (Some t) sendto_ok)) \<longrightarrow>
            clips (fst (snd (on_clipboard_change s (Some t) sendto_ok)))
              = Clip t (menu_max_width s) # butlast cs)
       \<and> (received_clips s = cs \<and> utf8_decode data = Some t \<and> last_sent s \<noteq> Some t \<longrightarrow>
            received_clips (fst (snd (on_clip_received s data address)))
              = Clip t (menu_max_width s) # butlast cs)
       \<and> cs = butlast cs @ [last cs]
       \<and> length (Clip t (menu_max_width s) # butlast cs) = length cs"
proof -
  from assms(2) have absent: "t \<notin> clip_text ` set (drop 0 cs)" by simp
  then have rd: "remove_duplicates t 0 cs = (Returned (), cs)"
    by (rule remove_duplicates_absent)
  from assms(2,3) have nh: "\<not> (cs \<noteq> [] \<and> clip_text (hd cs) = t)"
    by (metis hd_in_set imageI)
  from assms(3,4) have full: "cap (clip_max_count s) (Clip t (menu_max_width s) # cs)
      = Clip t (menu_max_width s) # butlast cs"
    by (simp add: cap_full)
  have a: "clips (fst (snd (on_clipboard_change s (Some t) sendto_ok)))
      = Clip t (menu_max_width s) # butlast cs"
    if "clips s = cs" and "\<not> raised (fst (on_clipboard_change s (Some t) sendto_ok))"
    using that clips_after_change [of t s sendto_ok] assms(1) nh rd full by simp
  have b: "received_clips (fst (snd (on_clip_received s data address)))
      = Clip t (menu_max_width s) # butlast cs"
    if "received_clips s = cs" and "utf8_decode data = Some t" and "last_sent s \<noteq> Some t"
    using that received_after_receive [of data t s address] assms(1) nh rd full by simp
  from assms(3) have "cs = butlast cs @ [last cs]" by simp
  moreover from assms(3) have "length (Clip t (menu_max_width s) # butlast cs) = length cs"
    by simp
  ultimately show ?thesis using a b by blast
qed

lemma record_into_full_store_example:
  "clips (fst (snd (on_clipboard_change
      ((init 2 30 True False)\<lparr>clips := [Clip [0x62] 30, Clip [0x61] 30],
         received_clips := [Clip [0x62] 30, Clip [0x61] 30]\<rparr>) (Some [0x63]) True)))
     = [Clip [0x63] 30, Clip [0x62] 30]
   \<and> received_clips (fst (snd (on_clip_received
      ((init 2 30 True False)\<lparr>clips := [Clip [0x62] 30, Clip [0x61] 30],
         received_clips := [Clip [0x62] 30, Clip [0x61] 30]\<rparr>) [0x63] (ascii ''10.0.0.7''))))
     = [Clip [0x63] 30, Clip [0x62] 30]"
proof -
  let ?s = "(init 2 30 True False)\<lparr>clips := [Clip [0x62] 30, Clip [0x61] 30],
         received_clips := [Clip [0x62] 30, Clip [0x61] 30]\<rparr>"
  have nr: "\<not> raised (fst (on_clipboard_change ?s (Some [0x63]) True))"
    unfolding on_clipboard_change_raised_iff
    by (simp add: utf8_encode_cp_def init_def Clip_def)
  show ?thesis
    using record_into_full_store [of "[0x63]" "[Clip [0x62] 30, Clip [0x61] 30]" ?s True
        "[0x63]" "ascii ''10.0.0.7''"] nr
    by (simp add: utf8_decode_letter init_def Clip_def)
qed

text \<open>
  C6. The claim: recording a new text into a full history removes the oldest entry, and
  the length is again the configured count. With a count of 2 and automatic sending
  switched on, the texts \<open>a\<close> and \<open>b\<close> are copied and sent: the history is full. Then the
  text \<open>c\<close> is copied and its \<^verbatim>\<open>sendto\<close> raises: the handler is left after the insertion
  and before the cap, the oldest entry \<open>a\<close> is still there and the history holds three
  clips.
\<close>

theorem full_store_not_evicted_after_failed_send:
  "clips (run (init 2 30 True False)
       [Clipboard_change (Some [0x61]) True, Clipboard_change (Some [0x62]) True])
   = [Clip [0x62] 30, Clip [0x61] 30]
   \<and> clips (run (init 2 30 True False)
       [Clipboard_change (Some [0x61]) True, Clipboard_change (Some [0x62]) True,
        Clipboard_change (Some [0x63]) False])
   = [Clip [0x63] 30, Clip [0x62] 30, Clip [0x61] 30]"
  by (simp add: init_def on_clipboard_change_record utf8_encode_cp_def cap_def Clip_def)



text \<open>
  A history longer than the count is what a send that raised leaves behind: with a count
  of 1, after \<open>a\<close> was sent and the send of \<open>b\<close> raised, copying \<open>a\<close> again moves it to the
  front and the cap removes \<open>b\<close>.
\<close>

lemma entry_lost_after_failed_send:
  "clips (run (init 1 30 True False)
       [Clipboard_change (Some [0x61]) True, Clipboard_change (Some [0x62]) False,
        Clipboard_change (Some [0x61]) True])
   = [Clip [0x61] 30]"
  by (simp add: init_def on_clipboard_change_record utf8_encode_cp_def cap_def Clip_def)

text \<open>
  C8. When the text equals the text of the first entry of the history, the handler
  changes nothing and calls no collaborator (no send, no notification, no menu update).
  \<^verbatim>\<open>on_clipboard_change\<close> returns \<^verbatim>\<open>False\<close>; \<^verbatim>\<open>on_clip_received\<close> returns \<^verbatim>\<open>False\<close> too,
  unless the text is also the last payload sent, which it answers with \<^verbatim>\<open>True\<close>.
\<close>

theorem head_repeat_no_op:
  "(clips s \<noteq> [] \<and> clip_text (hd (clips s)) = t \<longrightarrow>
      on_clipboard_change s (Some t) sendto_ok = (Returned False, s, []))
   \<and> (received_clips s \<noteq> [] \<and> clip_text (hd (received_clips s)) = t
        \<and> utf8_decode data = Some t \<longrightarrow>
      on_clip_received s data address = (Returned (last_sent s = Some t), s, []))"
  by (auto simp: on_clipboard_change_def on_clip_received_def clip_eq_def)

theorem head_repeat_no_op_witness:
  "on_clipboard_change
     ((init 15 30 True True)\<lparr>clips := [Clip [0x61] 30], received_clips := [Clip [0x61] 30]\<rparr>)
     (Some [0x61]) True
   = (Returned False,
      (init 15 30 True True)\<lparr>clips := [Clip [0x61] 30], received_clips := [Clip [0x61] 30]\<rparr>, [])
   \<and> on_clip_received
     ((init 15 30 True True)\<lparr>clips := [Clip [0x61] 30], received_clips := [Clip [0x61] 30]\<rparr>)
     [0x61] (ascii ''10.0.0.7'')
   = (Returned False,
      (init 15 30 True True)\<lparr>clips := [Clip [0x61] 30], received_clips := [Clip [0x61] 30]\<rparr>, [])"
proof -
  have d: "utf8_decode [0x61] = Some [0x61]"
    using utf8_decode_ascii [of "[0x61]"] by simp
  show ?thesis
    using head_repeat_no_op
      [of "(init 15 30 True True)\<lparr>clips := [Clip [0x61] 30], received_clips := [Clip [0x61] 30]\<rparr>"
          "[0x61]" True "[0x61]" "ascii ''10.0.0.7''"]
    by (simp add: d init_def Clip_def)
qed

section \<open>The menu label\<close>

text \<open>
  A text that fits the width is shown normalized. For a width of at least 4, a longer
  text is shown as its first and last \<open>width div 2 - 1\<close> characters around the
  separator.
\<close>

lemma get_itemlabel_short:
  "int (length (normalized c)) \<le> max_width c \<Longrightarrow> get_itemlabel c = normalized c"
  by (simp add: get_itemlabel_def normalized_def)

lemma get_itemlabel_wide:
  assumes "4 \<le> max_width c" and "int (length (normalized c)) > max_width c"
    and "k = nat (max_width c div 2 - 1)"
  shows "get_itemlabel c
         = take k (normalized c) @ ellipsis @ drop (length (normalized c) - k) (normalized c)
       \<and> length (take k (normalized c)) = k
       \<and> length (drop (length (normalized c) - k) (normalized c)) = k"
proof -
  from assms(1) have h: "int_half (max_width c) - 1 = int k" and pos: "0 < k"
    using assms(3) by (simp_all add: int_half_def)
  from assms have le: "k \<le> length (normalized c)" by linarith
  from h pos le assms(2) have "get_itemlabel c
      = take k (normalized c) @ ellipsis @ drop (length (normalized c) - k) (normalized c)"
    by (simp add: get_itemlabel_def normalized_def slice_to_def slice_from_def Let_def
        nat_diff_distrib')
  with le show ?thesis by simp
qed

text \<open>
  C9. The claim: a text longer than the width is shown as its first and its last
  \<open>width div 2 - 1\<close> characters around an ellipsis. With width 2 that count is 0, and
  \<^verbatim>\<open>trimmed[-0:]\<close> is the whole text: the label of \<open>abc\<close> is the separator followed by
  \<open>abc\<close>. And the separator of the source's format string is three code points, so the
  label for the text \<open>abcdefghijklmno\<close> at width 10 has eleven characters.
\<close>

theorem get_itemlabel_slips:
  "get_itemlabel (Clip (ascii ''abc'') 2) = ellipsis @ ascii ''abc''
   \<and> get_itemlabel (Clip (ascii ''abcdefghijklmno'') 10)
       = ascii ''abcd'' @ [0xE2, 0x20AC, 0xA6] @ ascii ''lmno''"
  by (simp add: get_itemlabel_def Clip_def ascii_def strip_def replace_newlines_def
      isspace_def int_half_def slice_to_def slice_from_def ellipsis_def)

text \<open>
  C10. For a width of 2 or 3 and a normalized text longer than the width, the label is
  an empty prefix, the separator and the whole normalized text: it is longer than the
  normalized text and longer than the width.
\<close>

theorem get_itemlabel_degenerate:
  assumes "max_width c = 2 \<or> max_width c = 3"
    and "int (length (normalized c)) > max_width c"
  shows "get_itemlabel c = [] @ ellipsis @ normalized c
         \<and> length (get_itemlabel c) > length (normalized c)
         \<and> int (length (get_itemlabel c)) > max_width c"
proof -
  from assms(1) have mw: "int_half (max_width c) - 1 = 0"
    by (auto simp: int_half_def)
  with assms(2) have "get_itemlabel c = ellipsis @ normalized c"
    by (simp add: get_itemlabel_def normalized_def slice_to_def slice_from_def)
  with assms(2) show ?thesis by (simp add: ellipsis_def)
qed

theorem get_itemlabel_degenerate_witness:
  "max_width (Clip (ascii ''abcd'') 3) = 3
   \<and> int (length (normalized (Clip (ascii ''abcd'') 3))) > 3
   \<and> get_itemlabel (Clip (ascii ''abcd'') 3) = ellipsis @ ascii ''abcd''
   \<and> length (get_itemlabel (Clip (ascii ''abcd'') 3)) = 7"
  using get_itemlabel_degenerate [of "Clip (ascii ''abcd'') 3"]
  by (simp add: Clip_def normalized_def ascii_def strip_def replace_newlines_def isspace_def
      ellipsis_def)

end
